theory Spec2Isabelle
  imports Main
begin

section \<open>The OPFS picker: a three-column browser over a directory snapshot\<close>

text \<open>
  The development embeds \<^verbatim>\<open>src/js/components/opfs-picker.js\<close> (the class
  \<^verbatim>\<open>OpfsPicker\<close>) and the function \<^verbatim>\<open>dirtree\<close> of \<^verbatim>\<open>src/js/opfs.js\<close>.
  JavaScript strings are lists of code units; they are modelled as \<open>string\<close>. A value
  that may be \<^verbatim>\<open>null\<close> or \<^verbatim>\<open>undefined\<close> is an \<open>option\<close>, with \<open>None\<close> for both.
\<close>

subsection \<open>String and array primitives of the host language\<close>

text \<open>\<^verbatim>\<open>s.split("/")\<close>: the pieces between the separators; never the empty array.\<close>

fun js_split :: "string \<Rightarrow> string list" where
  "js_split [] = [[]]"
| "js_split (c # cs) =
     (if c = CHR ''/'' then [] # js_split cs
      else (c # hd (js_split cs)) # tl (js_split cs))"

text \<open>\<^verbatim>\<open>s.split("/").filter(Boolean)\<close>: the empty string is the only falsy string.\<close>

definition segments :: "string \<Rightarrow> string list" where
  "segments s = filter (\<lambda>p. p \<noteq> []) (js_split s)"

text \<open>\<^verbatim>\<open>xs.join("/")\<close>.\<close>

fun js_join :: "string list \<Rightarrow> string" where
  "js_join [] = []"
| "js_join [x] = x"
| "js_join (x # y # ys) = x @ CHR ''/'' # js_join (y # ys)"

text \<open>\<^verbatim>\<open>s.lastIndexOf("/")\<close>: \<open>-1\<close> when there is no separator.\<close>

definition lastIndexOf :: "string \<Rightarrow> int" where
  "lastIndexOf s =
     (if CHR ''/'' \<in> set s
      then int (length s) - 1 - int (length (takeWhile (\<lambda>c. c \<noteq> CHR ''/'') (rev s)))
      else - 1)"

text \<open>\<^verbatim>\<open>s.substring(0, i)\<close>: a negative end is clamped to \<open>0\<close>.\<close>

definition substring0 :: "string \<Rightarrow> int \<Rightarrow> string" where
  "substring0 s i = take (nat i) s"

text \<open>\<^verbatim>\<open>xs.slice(0, e)\<close>: a negative end counts from the end of the array.\<close>

definition slice0 :: "'a list \<Rightarrow> int \<Rightarrow> 'a list" where
  "slice0 xs e = (if 0 \<le> e then take (nat e) xs else take (length xs - nat (- e)) xs)"

text \<open>\<^verbatim>\<open>xs.slice(-3)\<close>: the last three elements, or all of them.\<close>

definition slice_last3 :: "'a list \<Rightarrow> 'a list" where
  "slice_last3 xs = drop (length xs - 3) xs"

text \<open>\<^verbatim>\<open>xs[i]\<close>: \<^verbatim>\<open>undefined\<close> out of range.\<close>

definition js_index :: "'a list \<Rightarrow> int \<Rightarrow> 'a option" where
  "js_index xs i = (if 0 \<le> i \<and> i < int (length xs) then Some (xs ! nat i) else None)"

text \<open>
  \<^verbatim>\<open>s.trim()\<close>, for code units below 256: tab, line feed, vertical tab, form feed,
  carriage return, space and no-break space are white space.
\<close>

definition js_space :: "char \<Rightarrow> bool" where
  "js_space c = (of_char c \<in> {9, 10, 11, 12, 13, 32, 160 :: nat})"

definition js_trim :: "string \<Rightarrow> string" where
  "js_trim s = rev (dropWhile js_space (rev (dropWhile js_space s)))"

subsection \<open>Path helpers\<close>

text \<open>
  \<^verbatim>\<open>normalize(path)\<close>: a falsy argument (\<^verbatim>\<open>null\<close>, \<^verbatim>\<open>undefined\<close>, the empty string)
  gives the root; a leading separator is added when absent; one trailing separator is
  removed from a path longer than one code unit.
\<close>

definition normalize_path :: "string option \<Rightarrow> string" where
  "normalize_path path =
     (case path of
        None \<Rightarrow> ''/''
      | Some p0 \<Rightarrow>
          if p0 = [] then ''/''
          else
            let p1 = (if \<not> (hd p0 = CHR ''/'') then CHR ''/'' # p0 else p0);
                p2 = (if length p1 > 1 \<and> last p1 = CHR ''/'' then butlast p1 else p1)
            in p2)"

text \<open>\<^verbatim>\<open>parentOf(path)\<close>: \<^verbatim>\<open>null\<close> for the root.\<close>

definition parentOf :: "string option \<Rightarrow> string option" where
  "parentOf path0 =
     (let path = normalize_path path0
      in if path = ''/'' then None
         else let idx = lastIndexOf path
              in if idx = 0 then Some ''/'' else Some (substring0 path idx))"

text \<open>\<^verbatim>\<open>x || "/"\<close> on a string or \<^verbatim>\<open>null\<close>.\<close>

definition or_root :: "string option \<Rightarrow> string" where
  "or_root x = (case x of None \<Rightarrow> ''/'' | Some p \<Rightarrow> if p = [] then ''/'' else p)"

subsection \<open>The tree snapshot\<close>

text \<open>
  The objects built by \<^verbatim>\<open>dirtree\<close>: a directory has \<^verbatim>\<open>name\<close>, \<^verbatim>\<open>path\<close> and
  \<^verbatim>\<open>children\<close>, a file has \<^verbatim>\<open>name\<close> and \<^verbatim>\<open>path\<close> and no \<^verbatim>\<open>children\<close> property.
  \<open>EmptyObject\<close> is the object \<^verbatim>\<open>{}\<close> that the constructor stores in
  \<^verbatim>\<open>fullTree\<close> before the first load: it is truthy and has no property at all.
\<close>

datatype node =
    Directory string string "node list"
  | File string string
  | EmptyObject

fun name_of :: "node \<Rightarrow> string option" where
  "name_of (Directory n p cs) = Some n"
| "name_of (File n p) = Some n"
| "name_of EmptyObject = None"

fun path_of :: "node \<Rightarrow> string option" where
  "path_of (Directory n p cs) = Some p"
| "path_of (File n p) = Some p"
| "path_of EmptyObject = None"

fun children_of :: "node \<Rightarrow> node list option" where
  "children_of (Directory n p cs) = Some cs"
| "children_of (File n p) = None"
| "children_of EmptyObject = None"

text \<open>\<^verbatim>\<open>item.type === "file"\<close>.\<close>

fun is_file :: "node \<Rightarrow> bool" where
  "is_file (File n p) = True"
| "is_file _ = False"

text \<open>\<^verbatim>\<open>n.children || []\<close>: an array, even the empty one, is truthy.\<close>

definition kids :: "node \<Rightarrow> node list" where
  "kids n = (case children_of n of None \<Rightarrow> [] | Some cs \<Rightarrow> cs)"

text \<open>\<^verbatim>\<open>n?.children || []\<close>.\<close>

definition kids_opt :: "node option \<Rightarrow> node list" where
  "kids_opt n = (case n of None \<Rightarrow> [] | Some m \<Rightarrow> kids m)"

text \<open>
  The loop of \<^verbatim>\<open>findNode\<close>: from \<open>cur\<close>, follow each segment to the first child
  of that name; \<^verbatim>\<open>null\<close> when \<open>cur\<close> has no \<^verbatim>\<open>children\<close> or no such child.
\<close>

fun descend :: "node \<Rightarrow> string list \<Rightarrow> node option" where
  "descend cur [] = Some cur"
| "descend cur (p # ps) =
     (case children_of cur of
        None \<Rightarrow> None
      | Some cs \<Rightarrow>
          (case find (\<lambda>c. name_of c = Some p) cs of
             None \<Rightarrow> None
           | Some c \<Rightarrow> descend c ps))"

text \<open>
  \<^verbatim>\<open>findNode(path)\<close> on the snapshot \<open>fullTree\<close>. The field always holds an object,
  so the test \<^verbatim>\<open>!this.fullTree\<close> never succeeds.
\<close>

definition findNode :: "node \<Rightarrow> string option \<Rightarrow> node option" where
  "findNode fullTree path0 =
     (let path = normalize_path path0
      in if path = ''/'' then Some fullTree
         else descend fullTree (segments path))"

subsection \<open>The storage backend and \<^verbatim>\<open>dirtree\<close>\<close>

text \<open>
  A directory handle lists its entries by name, in the order its iterator yields them;
  a file handle has no entries that matter here.
\<close>

datatype handle =
    FileHandle
  | DirectoryHandle "(string \<times> handle) list"

datatype fs_error = NotFoundError | TypeMismatchError

text \<open>The path given to a child: \<^verbatim>\<open>currentPath === "/" ? `/${childName}` : `${currentPath}/${childName}`\<close>.\<close>

definition childpath :: "string \<Rightarrow> string \<Rightarrow> string" where
  "childpath currentPath childName =
     (if currentPath = ''/'' then CHR ''/'' # childName
      else currentPath @ CHR ''/'' # childName)"

text \<open>
  \<^verbatim>\<open>walk(dirHandle, name, currentPath)\<close>. It is only ever called on a directory
  handle; on a file handle, which has no entries, the model returns the bare directory
  node.
\<close>

fun walk :: "handle \<Rightarrow> string \<Rightarrow> string \<Rightarrow> node" where
  "walk (DirectoryHandle entries) name currentPath =
     Directory name currentPath
       (map (\<lambda>(childName, childHandle).
               (case childHandle of
                  FileHandle \<Rightarrow> File childName (childpath currentPath childName)
                | DirectoryHandle es \<Rightarrow>
                    walk childHandle childName (childpath currentPath childName)))
            entries)"
| "walk FileHandle name currentPath = Directory name currentPath []"

text \<open>\<^verbatim>\<open>dir.getDirectoryHandle(p)\<close>, which rejects when \<open>p\<close> is missing or a file.\<close>

fun getDirectoryHandle :: "handle \<Rightarrow> string \<Rightarrow> fs_error + handle" where
  "getDirectoryHandle (DirectoryHandle entries) p =
     (case map_of entries p of
        None \<Rightarrow> Inl NotFoundError
      | Some FileHandle \<Rightarrow> Inl TypeMismatchError
      | Some (DirectoryHandle es) \<Rightarrow> Inr (DirectoryHandle es))"
| "getDirectoryHandle FileHandle p = Inl TypeMismatchError"

fun resolve :: "handle \<Rightarrow> string list \<Rightarrow> fs_error + handle" where
  "resolve start [] = Inr start"
| "resolve start (p # ps) =
     (case getDirectoryHandle start p of
        Inl e \<Rightarrow> Inl e
      | Inr d \<Rightarrow> resolve d ps)"

text \<open>\<^verbatim>\<open>dirtree(path)\<close> over the root handle of the origin's private file system.\<close>

definition dirtree :: "handle \<Rightarrow> string \<Rightarrow> fs_error + node" where
  "dirtree root path =
     (let clean = (if path = ''/'' then [] else segments path)
      in case resolve root clean of
           Inl e \<Rightarrow> Inl e
         | Inr start \<Rightarrow>
             let dirName = (if clean \<noteq> [] then last clean else [])
             in Inr (walk start dirName
                       (if path = ''/'' then ''/'' else CHR ''/'' # js_join clean)))"

subsection \<open>The state of the picker\<close>

text \<open>
  The fields of the element, the contents of its three column elements (each row keeps
  the item it was made from), the breadcrumb bar, whether the element was hidden, and
  the events dispatched to the host so far. The \<^verbatim>\<open>selected\<close> style class of the rows,
  which \<^verbatim>\<open>highlightPath\<close> toggles from a timer, is presentation and is left out.
\<close>

datatype event = OpenFile string | OpfsFile string | CloseEvent

record crumb =
  label :: string
  target :: string
  active :: bool

record picker =
  fullTree :: node
  selectedPath :: "string option"
  pathParts :: "string list"
  history :: "string list"
  historyIndex :: int
  col1 :: "node list"
  col2 :: "node list"
  col3 :: "node list"
  breadcrumb :: "crumb list"
  hidden :: bool
  dispatched :: "event list"

text \<open>The constructor, followed by \<^verbatim>\<open>render()\<close>, which creates the empty columns.\<close>

definition initial :: picker where
  "initial =
     \<lparr>fullTree = EmptyObject, selectedPath = None, pathParts = [], history = [],
      historyIndex = - 1, col1 = [], col2 = [], col3 = [], breadcrumb = [],
      hidden = False, dispatched = []\<rparr>"

text \<open>
  A handler that raises a \<^verbatim>\<open>TypeError\<close> (reading \<^verbatim>\<open>children\<close> of \<^verbatim>\<open>null\<close>) stops
  there; what it had written before stays written.
\<close>

datatype outcome = Done picker | TypeError picker

fun state_of :: "outcome \<Rightarrow> picker" where
  "state_of (Done s) = s"
| "state_of (TypeError s) = s"

fun and_then :: "outcome \<Rightarrow> (picker \<Rightarrow> outcome) \<Rightarrow> outcome" where
  "and_then (Done s) f = f s"
| "and_then (TypeError s) f = TypeError s"

definition dispatchEvent :: "event \<Rightarrow> picker \<Rightarrow> picker" where
  "dispatchEvent e s = s\<lparr>dispatched := dispatched s @ [e]\<rparr>"

datatype colId = Col1 | Col2 | Col3

fun renderColumn :: "colId \<Rightarrow> node list \<Rightarrow> picker \<Rightarrow> picker" where
  "renderColumn Col1 items s = s\<lparr>col1 := items\<rparr>"
| "renderColumn Col2 items s = s\<lparr>col2 := items\<rparr>"
| "renderColumn Col3 items s = s\<lparr>col3 := items\<rparr>"

text \<open>\<^verbatim>\<open>this.renderColumn(c, n.children || [])\<close> where \<open>n\<close> may be \<^verbatim>\<open>null\<close>.\<close>

definition renderChildren :: "colId \<Rightarrow> node option \<Rightarrow> picker \<Rightarrow> outcome" where
  "renderChildren c n s =
     (case n of None \<Rightarrow> TypeError s | Some m \<Rightarrow> Done (renderColumn c (kids m) s))"

subsection \<open>Breadcrumb\<close>

definition makeBreadcrumbSegment :: "string \<Rightarrow> string \<Rightarrow> picker \<Rightarrow> crumb" where
  "makeBreadcrumbSegment lbl path s =
     \<lparr>label = lbl, target = path,
      active = (normalize_path (Some path) = normalize_path (selectedPath s))\<rparr>"

fun crumbs :: "string \<Rightarrow> string list \<Rightarrow> picker \<Rightarrow> crumb list" where
  "crumbs current [] s = []"
| "crumbs current (p # ps) s =
     (let current' = current @ CHR ''/'' # p
      in makeBreadcrumbSegment p current' s # crumbs current' ps s)"

definition updateBreadcrumb :: "string option \<Rightarrow> picker \<Rightarrow> picker" where
  "updateBreadcrumb path0 s =
     (let path = normalize_path path0;
          parts = segments path
      in if length parts = 0
         then s\<lparr>breadcrumb := [makeBreadcrumbSegment ''/'' ''/'' s]\<rparr>
         else s\<lparr>breadcrumb := crumbs [] parts s\<rparr>)"

subsection \<open>History\<close>

definition pushHistory :: "string \<Rightarrow> picker \<Rightarrow> picker" where
  "pushHistory path s =
     (let h = (if historyIndex s < int (length (history s)) - 1
               then slice0 (history s) (historyIndex s + 1)
               else history s);
          h' = h @ [path]
      in s\<lparr>history := h', historyIndex := int (length h') - 1\<rparr>)"

subsection \<open>Jump to a path\<close>

definition jumpToPath :: "string option \<Rightarrow> bool \<Rightarrow> picker \<Rightarrow> picker" where
  "jumpToPath full0 push s =
     (let full = normalize_path full0;
          parts = segments full;
          visible = (if length parts \<le> 3 then parts else slice_last3 parts);
          parentPath =
            (if length parts > 3
             then let parentParts = take (length parts - length visible) parts;
                      pp = CHR ''/'' # js_join parentParts
                  in if pp = [] then ''/'' else pp
             else ''/'');
          parentNode = findNode (fullTree s) (Some parentPath);
          s1 = renderColumn Col1 (kids_opt parentNode) s;
          s2 = (if length visible \<ge> 2
                then let p2 = CHR ''/'' # js_join (take 2 visible);
                         n2 = findNode (fullTree s) (Some p2)
                     in renderColumn Col2 (kids_opt n2) s1
                else renderColumn Col2 [] s1);
          s3 = (if length visible \<ge> 3
                then let p3 = CHR ''/'' # js_join (take 3 visible);
                         n3 = findNode (fullTree s) (Some p3)
                     in renderColumn Col3 (kids_opt n3) s2
                else renderColumn Col3 [] s2);
          s4 = s3\<lparr>selectedPath := Some full\<rparr>;
          s5 = updateBreadcrumb (Some full) s4
      in if push then pushHistory full s5 else s5)"

text \<open>\<^verbatim>\<open>back()\<close>.\<close>

definition back_nav :: "picker \<Rightarrow> picker" where
  "back_nav s =
     (if historyIndex s \<le> 0 then s
      else let s1 = s\<lparr>historyIndex := historyIndex s - 1\<rparr>;
               prev = js_index (history s1) (historyIndex s1)
           in jumpToPath prev False s1)"

subsection \<open>Loading the snapshot\<close>

text \<open>
  \<^verbatim>\<open>loadTree()\<close> over the root handle \<open>root\<close>. When the promise of \<^verbatim>\<open>dirtree\<close>
  rejects, nothing after the \<^verbatim>\<open>await\<close> runs.
\<close>

definition loadTree :: "handle \<Rightarrow> picker \<Rightarrow> picker" where
  "loadTree root s =
     (case dirtree root ''/'' of
        Inl e \<Rightarrow> s
      | Inr t \<Rightarrow>
          let s1 = s\<lparr>fullTree := t\<rparr>;
              s2 = renderColumn Col1 (case children_of t of None \<Rightarrow> [] | Some cs \<Rightarrow> cs) s1
          in updateBreadcrumb (Some ''/'') s2)"

subsection \<open>Sliding the window\<close>

definition slideLeft :: "string \<Rightarrow> picker \<Rightarrow> outcome" where
  "slideLeft path0 s =
     (let path = normalize_path (Some path0);
          parent = or_root (parentOf (Some path));
          grandparent = or_root (parentOf (Some parent));
          node = findNode (fullTree s) (Some path);
          parentNode = findNode (fullTree s) (Some parent);
          grandparentNode = findNode (fullTree s) (Some grandparent)
      in and_then (and_then (renderChildren Col1 grandparentNode s)
                            (renderChildren Col2 parentNode))
                  (renderChildren Col3 node))"

definition slideRight :: "string \<Rightarrow> picker \<Rightarrow> outcome" where
  "slideRight path0 s =
     (let path = normalize_path (Some path0);
          parent = or_root (parentOf (Some path));
          grandparent = or_root (parentOf (Some parent));
          node = findNode (fullTree s) (Some path);
          parentNode = findNode (fullTree s) (Some parent);
          grandparentNode = findNode (fullTree s) (Some grandparent)
      in if parent = ''/''
         then and_then (renderChildren Col2 node (renderColumn Col1 (kids_opt parentNode) s))
                       (\<lambda>s2. Done (renderColumn Col3 [] s2))
         else and_then (and_then (renderChildren Col1 grandparentNode s)
                                 (renderChildren Col2 parentNode))
                       (\<lambda>s2. Done (renderColumn Col3 (kids_opt node) s2)))"

subsection \<open>Double click on a row\<close>

definition handleDoubleClickItem :: "colId \<Rightarrow> node \<Rightarrow> picker \<Rightarrow> outcome" where
  "handleDoubleClickItem colId item s =
     (let path = normalize_path (path_of item)
      in if is_file item then Done (dispatchEvent (OpenFile path) s)
         else
           (case findNode (fullTree s) (Some path) of
              None \<Rightarrow> Done s
            | Some node \<Rightarrow>
                and_then
                  (case colId of
                     Col1 \<Rightarrow> slideRight path s
                   | Col2 \<Rightarrow> Done (renderColumn Col3 (kids node) s)
                   | Col3 \<Rightarrow> slideLeft path s)
                  (\<lambda>s1. let s2 = s1\<lparr>selectedPath := Some path\<rparr>;
                             s3 = updateBreadcrumb (Some path) s2
                         in Done (pushHistory path s3))))"

subsection \<open>Double click on a breadcrumb segment\<close>

definition navigateFromBreadcrumb :: "string \<Rightarrow> picker \<Rightarrow> outcome" where
  "navigateFromBreadcrumb path0 s =
     (let path = normalize_path (Some path0);
          parent = or_root (parentOf (Some path));
          grandparent = parentOf (Some parent);
          node = findNode (fullTree s) (Some path);
          parentNode = findNode (fullTree s) (Some parent);
          grandparentNode = findNode (fullTree s) grandparent
      in and_then
           (if parent = ''/''
            then Done (renderColumn Col3 []
                        (renderColumn Col2 (kids_opt node)
                          (renderColumn Col1 (kids_opt parentNode) s)))
            else if node \<noteq> None
            then and_then (and_then (renderChildren Col1 grandparentNode s)
                                    (renderChildren Col2 parentNode))
                          (renderChildren Col3 node)
            else Done (renderColumn Col3 [] s))
           (\<lambda>s1. let s2 = s1\<lparr>selectedPath := Some path\<rparr>;
                      s3 = s2\<lparr>pathParts := js_split path\<rparr>;
                      s4 = updateBreadcrumb (Some path) s3
                  in Done (pushHistory path s4)))"

subsection \<open>Single click and the controls\<close>

text \<open>A click on a row made from \<open>item\<close>: \<^verbatim>\<open>this.selectedPath = item.path\<close>.\<close>

definition clickRow :: "node \<Rightarrow> picker \<Rightarrow> picker" where
  "clickRow item s = s\<lparr>selectedPath := path_of item\<rparr>"

definition closeBtn :: "picker \<Rightarrow> picker" where
  "closeBtn s = dispatchEvent CloseEvent (s\<lparr>hidden := True\<rparr>)"

text \<open>The test \<^verbatim>\<open>!this.selectedPath\<close> holds for \<^verbatim>\<open>null\<close> and for the empty string.\<close>

definition openBtn :: "picker \<Rightarrow> picker" where
  "openBtn s =
     (case selectedPath s of
        None \<Rightarrow> s
      | Some p \<Rightarrow> if p = [] then s else dispatchEvent (OpfsFile p) s)"

definition upBtn :: "picker \<Rightarrow> picker" where
  "upBtn s =
     (case parentOf (Some (or_root (selectedPath s))) of
        None \<Rightarrow> s
      | Some parent \<Rightarrow> if parent = [] then s else jumpToPath (Some parent) True s)"

text \<open>The key \<^verbatim>\<open>Enter\<close> in the path input holding the text \<open>v0\<close>.\<close>

definition pathInput :: "string \<Rightarrow> picker \<Rightarrow> picker" where
  "pathInput v0 s =
     (let v = js_trim v0
      in if v = [] then s else jumpToPath (Some v) True s)"

subsection \<open>User actions\<close>

text \<open>
  One constructor per handler the element wires. A row or breadcrumb action carries the
  item or path its listener closed over; the model lets it be any item or path, which
  covers every row and segment the element can show.
\<close>

datatype action =
    Load handle
  | Click node
  | DoubleClick colId node
  | BreadcrumbDoubleClick string
  | PressClose
  | PressOpen
  | PressBack
  | PressUp
  | SubmitPath string

fun step :: "picker \<Rightarrow> action \<Rightarrow> picker" where
  "step s (Load root) = loadTree root s"
| "step s (Click item) = clickRow item s"
| "step s (DoubleClick colId item) = state_of (handleDoubleClickItem colId item s)"
| "step s (BreadcrumbDoubleClick path) = state_of (navigateFromBreadcrumb path s)"
| "step s PressClose = closeBtn s"
| "step s PressOpen = openBtn s"
| "step s PressBack = back_nav s"
| "step s PressUp = upBtn s"
| "step s (SubmitPath v) = pathInput v s"

definition run :: "action list \<Rightarrow> picker" where
  "run acts = foldl step initial acts"

subsection \<open>Notions used to state the properties\<close>

text \<open>
  Entry names of the storage backend are non-empty and hold no separator, and the names
  in one directory are distinct.
\<close>

definition valid_name :: "string \<Rightarrow> bool" where
  "valid_name nm = (nm \<noteq> [] \<and> CHR ''/'' \<notin> set nm)"

fun valid_handle :: "handle \<Rightarrow> bool" where
  "valid_handle FileHandle = True"
| "valid_handle (DirectoryHandle entries) =
     (distinct (map fst entries) \<and>
      (\<forall>e \<in> set entries. valid_name (fst e) \<and> valid_handle (snd e)))"

text \<open>Every node of a snapshot, the root first.\<close>

fun nodes_of :: "node \<Rightarrow> node list" where
  "nodes_of (Directory n p cs) = Directory n p cs # concat (map nodes_of cs)"
| "nodes_of (File n p) = [File n p]"
| "nodes_of EmptyObject = [EmptyObject]"

text \<open>The invariant of the history: the index points into a non-empty history.\<close>

definition history_ok :: "picker \<Rightarrow> bool" where
  "history_ok s =
     (history s \<noteq> [] \<longrightarrow> 0 \<le> historyIndex s \<and> historyIndex s < int (length (history s)))"

text \<open>A handler that leaves the selection, the history and its index as they were.\<close>

definition same_navigation :: "picker \<Rightarrow> picker \<Rightarrow> bool" where
  "same_navigation s s' =
     (history s' = history s \<and> historyIndex s' = historyIndex s \<and>
      selectedPath s' = selectedPath s)"

text \<open>How many of the three columns show at least one row.\<close>

definition nonempty_columns :: "picker \<Rightarrow> nat" where
  "nonempty_columns s = length (filter (\<lambda>c. c \<noteq> []) [col1 s, col2 s, col3 s])"

text \<open>
  A small file system for concrete runs: \<^verbatim>\<open>/a/b/c/d/e\<close> is a chain of directories
  ending in the file \<^verbatim>\<open>e\<close>, and \<^verbatim>\<open>/f\<close> is a file.
\<close>

definition chain_fs :: handle where
  "chain_fs =
     DirectoryHandle
       [(''a'', DirectoryHandle
          [(''b'', DirectoryHandle
             [(''c'', DirectoryHandle
                [(''d'', DirectoryHandle [(''e'', FileHandle)])])])]),
        (''f'', FileHandle)]"

definition dir_d :: node where
  "dir_d = Directory ''d'' ''/a/b/c/d'' [File ''e'' ''/a/b/c/d/e'']"

definition dir_c :: node where
  "dir_c = Directory ''c'' ''/a/b/c'' [dir_d]"

definition dir_b :: node where
  "dir_b = Directory ''b'' ''/a/b'' [dir_c]"

definition dir_a :: node where
  "dir_a = Directory ''a'' ''/a'' [dir_b]"

definition chain_tree :: node where
  "chain_tree = Directory [] ''/'' [dir_a, File ''f'' ''/f'']"

text \<open>The picker showing \<open>chain_tree\<close>, as \<^verbatim>\<open>loadTree\<close> leaves it.\<close>

definition chain_loaded :: picker where
  "chain_loaded =
     initial\<lparr>fullTree := chain_tree, col1 := [dir_a, File ''f'' ''/f''],
             breadcrumb := [\<lparr>label = ''/'', target = ''/'', active = True\<rparr>]\<rparr>"

text \<open>
  Two states reached on that file system: after opening \<^verbatim>\<open>a\<close> in column 1 and
  \<^verbatim>\<open>b\<close> in column 2, and after then opening \<^verbatim>\<open>c\<close> in column 3.
\<close>

definition chain_at_b :: picker where
  "chain_at_b = run [Load chain_fs, DoubleClick Col1 dir_a, DoubleClick Col2 dir_b]"

definition chain_at_c :: picker where
  "chain_at_c = step chain_at_b (DoubleClick Col3 dir_c)"

section \<open>Facts about the primitives\<close>

subsection \<open>Normal forms of paths\<close>

lemma normalize_fixed_iff:
  "(normalize_path (Some r) = r) = (r \<noteq> [] \<and> hd r = CHR ''/'' \<and> (length r > 1 \<longrightarrow> last r \<noteq> CHR ''/''))"
proof (cases r)
  case Nil
  then show ?thesis by (simp add: normalize_path_def Let_def)
next
  case (Cons c cs)
  show ?thesis
  proof (cases cs rule: rev_cases)
    case Nil
    with Cons show ?thesis by (auto simp: normalize_path_def Let_def)
  next
    case (snoc ys y)
    with Cons show ?thesis by (auto simp: normalize_path_def Let_def butlast_append)
  qed
qed

lemma two_last_cases:
  obtains "s = []" | c where "s = [c]" | t c d where "s = t @ [c, d]"
proof (cases s rule: rev_cases)
  case Nil
  then show ?thesis using that by simp
next
  case (snoc ys y)
  then show ?thesis using that by (cases ys rule: rev_cases) auto
qed

lemma normalize_twice_iff:
  "(normalize_path (Some (normalize_path (Some s))) = normalize_path (Some s)) =
     (\<not> (3 \<le> length s \<and> drop (length s - 2) s = ''//''))"
proof (cases s rule: two_last_cases)
  case 1
  then show ?thesis by (simp add: normalize_path_def Let_def)
next
  case (2 c)
  then show ?thesis by (simp add: normalize_path_def Let_def)
next
  case (3 t c d)
  show ?thesis
  proof (cases t)
    case Nil
    with 3 show ?thesis by (simp add: normalize_path_def Let_def)
  next
    case (Cons e es)
    with 3 show ?thesis unfolding normalize_fixed_iff
      by (auto simp: normalize_path_def Let_def butlast_append)
  qed
qed

subsection \<open>Splitting into segments\<close>

lemma js_split_nonempty [simp]: "js_split s \<noteq> []"
  by (induction s) auto

lemma js_split_no_sep: "CHR ''/'' \<notin> set s \<Longrightarrow> js_split s = [s]"
  by (induction s) auto

lemma js_split_append: "js_split (xs @ CHR ''/'' # ys) = js_split xs @ js_split ys"
proof (induction xs)
  case Nil
  then show ?case by simp
next
  case (Cons x xs)
  then show ?case by (cases "js_split xs") auto
qed

lemma js_split_no_sep_in: "x \<in> set (js_split s) \<Longrightarrow> CHR ''/'' \<notin> set x"
proof (induction s arbitrary: x)
  case Nil
  then show ?case by simp
next
  case (Cons c cs)
  then show ?case
    by (cases "js_split cs") (auto split: if_splits)
qed

lemma segments_Nil [simp]: "segments [] = []"
  by (simp add: segments_def)

lemma segments_append: "segments (xs @ CHR ''/'' # ys) = segments xs @ segments ys"
  by (simp add: segments_def js_split_append)

lemma segments_sep_Cons [simp]: "segments (CHR ''/'' # ys) = segments ys"
  using segments_append [of "[]" ys] by simp

lemma segments_snoc_sep [simp]: "segments (xs @ [CHR ''/'']) = segments xs"
  using segments_append [of xs "[]"] by simp

lemma segments_no_sep: "CHR ''/'' \<notin> set s \<Longrightarrow> segments s = (if s = [] then [] else [s])"
  by (simp add: segments_def js_split_no_sep)

lemma segments_valid: "x \<in> set (segments s) \<Longrightarrow> x \<noteq> [] \<and> CHR ''/'' \<notin> set x"
  by (auto simp: segments_def dest: js_split_no_sep_in)

lemma segments_butlast: "p \<noteq> [] \<Longrightarrow> last p = CHR ''/'' \<Longrightarrow> segments (butlast p) = segments p"
  using segments_snoc_sep [of "butlast p"] by (metis append_butlast_last_id)

lemma segments_normalize [simp]: "segments (normalize_path (Some s)) = segments s"
proof (cases "s = []")
  case True
  then show ?thesis by (simp add: normalize_path_def)
next
  case False
  define p1 where "p1 = (if hd s \<noteq> CHR ''/'' then CHR ''/'' # s else s)"
  have p1: "segments p1 = segments s" "p1 \<noteq> []"
    using False by (auto simp: p1_def)
  have "normalize_path (Some s) = (if length p1 > 1 \<and> last p1 = CHR ''/'' then butlast p1 else p1)"
    using False by (simp add: normalize_path_def Let_def p1_def)
  then show ?thesis using p1 by (simp add: segments_butlast)
qed

lemma segments_normalize_None [simp]: "segments (normalize_path None) = []"
  by (simp add: normalize_path_def)

lemma segments_join: "\<forall>x \<in> set xs. valid_name x \<Longrightarrow> segments (CHR ''/'' # js_join xs) = xs"
proof (induction xs rule: js_join.induct)
  case 1
  then show ?case by simp
next
  case (2 x)
  then show ?case by (simp add: segments_no_sep valid_name_def)
next
  case (3 x y ys)
  have "segments (CHR ''/'' # js_join (x # y # ys)) = segments x @ segments (CHR ''/'' # js_join (y # ys))"
    using segments_append [of x "js_join (y # ys)"] by (simp add: segments_append)
  with 3 show ?case by (simp add: segments_no_sep valid_name_def)
qed

lemma findNode_descend: "findNode t p = descend t (segments (normalize_path p))"
proof (cases "normalize_path p = ''/''")
  case True
  then show ?thesis by (simp add: findNode_def)
next
  case False
  then show ?thesis by (simp add: findNode_def)
qed

lemma findNode_Some [simp]: "findNode t (Some s) = descend t (segments s)"
  by (simp add: findNode_descend)

lemma findNode_None [simp]: "findNode t None = Some t"
  by (simp add: findNode_descend)

lemma descend_append:
  "descend t (xs @ ys) = (case descend t xs of None \<Rightarrow> None | Some m \<Rightarrow> descend m ys)"
  by (induction t xs rule: descend.induct) (auto split: option.splits)

subsection \<open>Parents\<close>

lemma normalize_hd: "normalize_path p \<noteq> [] \<and> hd (normalize_path p) = CHR ''/''"
proof (cases p)
  case None
  then show ?thesis by (simp add: normalize_path_def)
next
  case (Some s)
  show ?thesis
  proof (cases s rule: rev_cases)
    case Nil
    with Some show ?thesis by (simp add: normalize_path_def)
  next
    case (snoc ys y)
    with Some show ?thesis
      by (cases ys) (auto simp: normalize_path_def Let_def butlast_append)
  qed
qed

lemma lastIndexOf_split:
  assumes "CHR ''/'' \<in> set s"
  shows "\<exists>pre rest. s = pre @ CHR ''/'' # rest \<and> CHR ''/'' \<notin> set rest \<and> lastIndexOf s = int (length pre)"
proof -
  from split_list_last [OF assms] obtain pre rest
    where s: "s = pre @ CHR ''/'' # rest" and r: "CHR ''/'' \<notin> set rest" by blast
  have "takeWhile (\<lambda>c. c \<noteq> CHR ''/'') (rev rest @ CHR ''/'' # rev pre) = rev rest"
    using r by (auto simp: takeWhile_tail)
  then have "lastIndexOf s = int (length pre)"
    using assms s by (simp add: lastIndexOf_def)
  with s r show ?thesis by blast
qed

lemma parentOf_segments:
  "\<exists>r. segments (normalize_path p) = segments (or_root (parentOf p)) @ r"
proof (cases "normalize_path p = ''/''")
  case True
  then show ?thesis by (simp add: parentOf_def or_root_def)
next
  case False
  define q where "q = normalize_path p"
  have "CHR ''/'' \<in> set q" using normalize_hd [of p] unfolding q_def by (metis hd_in_set)
  from lastIndexOf_split [OF this] obtain pre rest
    where q: "q = pre @ CHR ''/'' # rest" and idx: "lastIndexOf q = int (length pre)" by blast
  have par: "or_root (parentOf p) = (if pre = [] then ''/'' else pre)"
    using False idx q by (auto simp: parentOf_def Let_def q_def [symmetric] or_root_def substring0_def)
  have "segments q = segments pre @ segments rest" using q by (simp add: segments_append)
  then show ?thesis unfolding q_def [symmetric] par by auto
qed

lemma findNode_parent:
  assumes "findNode t p = Some n"
  shows "\<exists>m. findNode t (Some (or_root (parentOf p))) = Some m"
proof -
  from parentOf_segments [of p] obtain r
    where "segments (normalize_path p) = segments (or_root (parentOf p)) @ r" by blast
  with assms show ?thesis
    by (auto simp: findNode_descend descend_append split: option.splits)
qed

section \<open>The history\<close>

lemma renderColumn_history [simp]:
  "history (renderColumn c xs s) = history s"
  "historyIndex (renderColumn c xs s) = historyIndex s"
  by (cases c; simp)+

lemma updateBreadcrumb_history [simp]:
  "history (updateBreadcrumb p s) = history s"
  "historyIndex (updateBreadcrumb p s) = historyIndex s"
  by (simp_all add: updateBreadcrumb_def Let_def)

lemma jumpToPath_history_False [simp]:
  "history (jumpToPath p False s) = history s"
  "historyIndex (jumpToPath p False s) = historyIndex s"
  by (simp_all add: jumpToPath_def Let_def)

lemma jumpToPath_push: "jumpToPath p True s = pushHistory (normalize_path p) (jumpToPath p False s)"
  by (simp add: jumpToPath_def Let_def)

lemma jumpToPath_selectedPath [simp]: "selectedPath (jumpToPath p b s) = Some (normalize_path p)"
  by (cases b) (simp_all add: jumpToPath_def Let_def updateBreadcrumb_def pushHistory_def)

lemma history_ok_pushHistory [simp]: "history_ok (pushHistory p s)"
  by (auto simp: history_ok_def pushHistory_def Let_def slice0_def)

lemma history_ok_same:
  "history s' = history s \<Longrightarrow> historyIndex s' = historyIndex s \<Longrightarrow> history_ok s \<Longrightarrow> history_ok s'"
  by (simp add: history_ok_def)

lemma history_ok_jumpToPath: "history_ok s \<Longrightarrow> history_ok (jumpToPath p b s)"
  by (cases b) (auto simp: jumpToPath_push intro: history_ok_same [of _ s])

lemma history_ok_back_nav: "history_ok s \<Longrightarrow> history_ok (back_nav s)"
proof -
  assume a: "history_ok s"
  show ?thesis
  proof (cases "historyIndex s \<le> 0")
    case True
    with a show ?thesis by (simp add: back_nav_def)
  next
    case False
    with a have "history_ok (s\<lparr>historyIndex := historyIndex s - 1\<rparr>)"
      by (auto simp: history_ok_def)
    then show ?thesis using False
      by (simp add: back_nav_def Let_def history_ok_jumpToPath)
  qed
qed

lemma same_navigation_refl [simp]: "same_navigation s s"
  by (simp add: same_navigation_def)

lemma same_navigation_columns [simp]:
  "same_navigation s (s'\<lparr>col1 := xs\<rparr>) = same_navigation s s'"
  "same_navigation s (s'\<lparr>col2 := xs\<rparr>) = same_navigation s s'"
  "same_navigation s (s'\<lparr>col3 := xs\<rparr>) = same_navigation s s'"
  by (simp_all add: same_navigation_def)

lemma same_navigation_ok: "same_navigation s s' \<Longrightarrow> history_ok s \<Longrightarrow> history_ok s'"
  by (simp add: same_navigation_def history_ok_def)

lemma same_navigation_renderColumn [simp]:
  "same_navigation s (renderColumn c xs s') = same_navigation s s'"
  by (cases c) simp_all

lemma renderChildren_navigation: "same_navigation s s1 \<Longrightarrow> same_navigation s (state_of (renderChildren c n s1))"
  by (simp add: renderChildren_def split: option.splits)

lemma and_then_navigation:
  assumes "same_navigation s (state_of r)"
    and "\<And>s1. same_navigation s s1 \<Longrightarrow> same_navigation s (state_of (f s1))"
  shows "same_navigation s (state_of (and_then r f))"
  using assms by (cases r) auto

lemma slideLeft_navigation: "same_navigation s (state_of (slideLeft p s))"
  unfolding slideLeft_def Let_def
  by (intro and_then_navigation renderChildren_navigation) simp

lemma slideRight_navigation: "same_navigation s (state_of (slideRight p s))"
  unfolding slideRight_def Let_def
  by (auto intro!: and_then_navigation renderChildren_navigation)

lemma and_then_push_ok:
  assumes "same_navigation s (state_of r)"
    and "history_ok s"
    and "\<And>s1. \<exists>p s2. f s1 = Done (pushHistory p s2)"
  shows "history_ok (state_of (and_then r f))"
proof (cases r)
  case (Done s1)
  with assms(3) [of s1] show ?thesis by auto
next
  case (TypeError s1)
  with assms(1,2) show ?thesis by (auto intro: same_navigation_ok)
qed

lemma history_ok_handleDoubleClickItem:
  assumes "history_ok s"
  shows "history_ok (state_of (handleDoubleClickItem c item s))"
proof (cases "is_file item")
  case True
  then show ?thesis using assms
    by (simp add: handleDoubleClickItem_def Let_def dispatchEvent_def history_ok_def)
next
  case False
  show ?thesis
  proof (cases "findNode (fullTree s) (Some (normalize_path (path_of item)))")
    case None
    with False assms show ?thesis by (simp add: handleDoubleClickItem_def Let_def)
  next
    case (Some node)
    have "same_navigation s (state_of (case c of Col1 \<Rightarrow> slideRight (normalize_path (path_of item)) s
                 | Col2 \<Rightarrow> Done (renderColumn Col3 (kids node) s)
                 | Col3 \<Rightarrow> slideLeft (normalize_path (path_of item)) s))"
      by (cases c) (simp_all add: slideRight_navigation slideLeft_navigation)
    then show ?thesis using False Some assms
      unfolding handleDoubleClickItem_def Let_def
      by (simp del: findNode_Some) (rule and_then_push_ok, auto)
  qed
qed

lemma history_ok_navigateFromBreadcrumb:
  assumes "history_ok s"
  shows "history_ok (state_of (navigateFromBreadcrumb p s))"
  unfolding navigateFromBreadcrumb_def Let_def
  by (rule and_then_push_ok [OF _ assms])
     (auto intro!: and_then_navigation renderChildren_navigation)

lemma history_ok_step: "history_ok s \<Longrightarrow> history_ok (step s a)"
proof (cases a)
  case (Load root)
  assume "history_ok s"
  then show ?thesis using Load
    by (auto simp: loadTree_def Let_def split: sum.splits intro!: history_ok_same [of _ s])
next
  case (Click item)
  assume "history_ok s"
  then show ?thesis using Click by (simp add: clickRow_def history_ok_def)
next
  case (DoubleClick c item)
  assume "history_ok s"
  then show ?thesis using DoubleClick by (simp add: history_ok_handleDoubleClickItem)
next
  case (BreadcrumbDoubleClick p)
  assume "history_ok s"
  then show ?thesis using BreadcrumbDoubleClick by (simp add: history_ok_navigateFromBreadcrumb)
next
  case PressClose
  assume "history_ok s"
  then show ?thesis using PressClose by (simp add: closeBtn_def dispatchEvent_def history_ok_def)
next
  case PressOpen
  assume "history_ok s"
  then show ?thesis using PressOpen
    by (simp add: openBtn_def dispatchEvent_def history_ok_def split: option.splits)
next
  case PressBack
  assume "history_ok s"
  then show ?thesis using PressBack by (simp add: history_ok_back_nav)
next
  case PressUp
  assume "history_ok s"
  then show ?thesis using PressUp
    by (simp add: upBtn_def history_ok_jumpToPath split: option.splits)
next
  case (SubmitPath v)
  assume "history_ok s"
  then show ?thesis using SubmitPath
    by (simp add: pathInput_def Let_def history_ok_jumpToPath)
qed

lemma history_ok_foldl: "history_ok s \<Longrightarrow> history_ok (foldl step s acts)"
  by (induction acts arbitrary: s) (simp_all add: history_ok_step)

lemma history_ok_initial: "history_ok initial"
  by (simp add: history_ok_def initial_def)

text \<open>
  Claim C7. The invariant \<open>0 \<le> historyIndex < history.length\<close> whenever the history is
  non-empty holds in the initial state, is kept by \<^verbatim>\<open>pushHistory\<close>, by \<^verbatim>\<open>back\<close>
  and by the handler of every user action (also by one that stops with a
  \<^verbatim>\<open>TypeError\<close>), and so holds after every sequence of user actions from the initial
  state.
\<close>

theorem history_invariant_preserved:
  "history_ok initial \<and>
   (history_ok s \<longrightarrow>
      history_ok (pushHistory p s) \<and> history_ok (back_nav s) \<and> history_ok (step s a)) \<and>
   history_ok (run acts)"
  by (simp add: history_ok_initial history_ok_back_nav history_ok_step run_def history_ok_foldl)

lemmas run_defs = run_def initial_def pathInput_def js_trim_def js_space_def jumpToPath_def
  Let_def normalize_path_def segments_def slice_last3_def findNode_def kids_opt_def kids_def
  updateBreadcrumb_def makeBreadcrumbSegment_def pushHistory_def slice0_def back_nav_def
  js_index_def

theorem history_invariant_witness:
  "history_ok (pushHistory ''/a'' initial) \<and>
   history (run [SubmitPath ''/a'', SubmitPath '' /a/b'', PressBack]) = [''/a'', ''/a/b''] \<and>
   historyIndex (run [SubmitPath ''/a'', SubmitPath '' /a/b'', PressBack]) = 0"
proof -
  have h: "history_ok (pushHistory ''/a'' initial)"
    by (simp add: history_ok_def pushHistory_def initial_def)
  have r: "history (run [SubmitPath ''/a'', SubmitPath '' /a/b'', PressBack]) = [''/a'', ''/a/b'']"
    by (simp add: run_defs)
  have "history_ok (run [SubmitPath ''/a'', SubmitPath '' /a/b'', PressBack])"
    using history_invariant_preserved [of "pushHistory ''/a'' initial" "''/b''" PressBack
        "[SubmitPath ''/a'', SubmitPath '' /a/b'', PressBack]"] by simp
  moreover have "historyIndex (run [SubmitPath ''/a'', SubmitPath '' /a/b'', PressBack]) \<le> 0"
    by (simp add: run_defs)
  ultimately show ?thesis using h r by (simp add: history_ok_def)
qed

section \<open>Normalisation\<close>

text \<open>
  Claim C4, as stated, fails: \<^verbatim>\<open>normalize\<close> removes one trailing separator only, so
  an input that ends in two of them is normalised a second time.
\<close>

theorem normalize_idempotent_counterexample:
  "normalize_path (Some (normalize_path (Some ''a//''))) \<noteq> normalize_path (Some ''a//'')"
  by (simp add: normalize_path_def)

text \<open>
  Claim C4, amended. \<^verbatim>\<open>normalize\<close> is total; the empty string and a missing input
  both give \<^verbatim>\<open>"/"\<close>, where a second application changes nothing; and for a string
  \<open>s\<close>, \<open>normalize(normalize(s)) = normalize(s)\<close> holds exactly when \<open>s\<close> is not a string of
  three or more code units that ends in two separators.
\<close>

theorem normalize_idempotent_amended:
  "normalize_path None = ''/'' \<and> normalize_path (Some []) = ''/'' \<and>
   normalize_path (Some (normalize_path None)) = normalize_path None \<and>
   ((normalize_path (Some (normalize_path (Some s))) = normalize_path (Some s)) =
    (\<not> (3 \<le> length s \<and> drop (length s - 2) s = ''//'')))"
  using normalize_twice_iff [of s] by (simp add: normalize_path_def)

theorem normalize_idempotent_witness:
  "normalize_path (Some (normalize_path (Some ''abc/def/''))) = normalize_path (Some ''abc/def/'') \<and>
   normalize_path (Some ''abc/def/'') = ''/abc/def''"
  using normalize_idempotent_amended [of "''abc/def/''"] by (simp add: normalize_path_def)

section \<open>Going back\<close>

lemma pushHistory_fields:
  "history (pushHistory p s) =
     (if historyIndex s < int (length (history s)) - 1
      then slice0 (history s) (historyIndex s + 1) else history s) @ [p]"
  "historyIndex (pushHistory p s) =
     int (length (if historyIndex s < int (length (history s)) - 1
      then slice0 (history s) (historyIndex s + 1) else history s))"
  by (simp_all add: pushHistory_def Let_def)

lemma back_nav_fields:
  "0 < historyIndex s \<Longrightarrow> history (back_nav s) = history s"
  "0 < historyIndex s \<Longrightarrow> historyIndex (back_nav s) = historyIndex s - 1"
  "0 < historyIndex s \<Longrightarrow>
     selectedPath (back_nav s) = Some (normalize_path (js_index (history s) (historyIndex s - 1)))"
  by (simp_all add: back_nav_def Let_def)

text \<open>
  Claim C5. From an empty history, after \<open>push(a); push(b); back()\<close> the entry under the
  index, which is also the path \<^verbatim>\<open>back\<close> jumps to, is \<open>a\<close>; after a further
  \<open>push(c); back()\<close> it is \<open>a\<close> again, the history being \<open>[a, c]\<close>: the push dropped the
  forward entry \<open>b\<close>.
\<close>

theorem history_back_discards_forward:
  assumes "history s = []"
  shows "let s1 = back_nav (pushHistory b (pushHistory a s)) in
           js_index (history s1) (historyIndex s1) = Some a \<and>
           selectedPath s1 = Some (normalize_path (Some a)) \<and>
           (let s2 = back_nav (pushHistory c s1) in
              history s2 = [a, c] \<and>
              js_index (history s2) (historyIndex s2) = Some a \<and>
              selectedPath s2 = Some (normalize_path (Some a)))"
proof -
  define s0 where "s0 = pushHistory b (pushHistory a s)"
  have s0: "history s0 = [a, b]" "historyIndex s0 = 1"
    using assms by (simp_all add: s0_def pushHistory_fields slice0_def)
  define s1 where "s1 = back_nav s0"
  have s1: "history s1 = [a, b]" "historyIndex s1 = 0" "selectedPath s1 = Some (normalize_path (Some a))"
    using s0 by (simp_all add: s1_def back_nav_fields js_index_def)
  define t where "t = pushHistory c s1"
  have t: "history t = [a, c]" "historyIndex t = 1"
    using s1 by (simp_all add: t_def pushHistory_fields slice0_def)
  define s2 where "s2 = back_nav t"
  have s2: "history s2 = [a, c]" "historyIndex s2 = 0" "selectedPath s2 = Some (normalize_path (Some a))"
    using t by (simp_all add: s2_def back_nav_fields js_index_def)
  show ?thesis
    using s1 s2 unfolding Let_def s0_def [symmetric] s1_def [symmetric] t_def [symmetric] s2_def [symmetric]
    by (simp add: js_index_def)
qed

theorem history_back_witness:
  "history initial = [] \<and>
   js_index (history (back_nav (pushHistory ''/b'' (pushHistory ''/a'' initial))))
            (historyIndex (back_nav (pushHistory ''/b'' (pushHistory ''/a'' initial)))) = Some ''/a'' \<and>
   history (back_nav (pushHistory ''/c'' (back_nav (pushHistory ''/b'' (pushHistory ''/a'' initial)))))
     = [''/a'', ''/c'']"
proof -
  have h: "history initial = []" by (simp add: initial_def)
  show ?thesis
    using h history_back_discards_forward [OF h, of "''/b''" "''/a''" "''/c''"]
    by (simp add: Let_def)
qed

section \<open>Lookup in a snapshot\<close>

lemma name_of_walk [simp]: "name_of (walk h nm cp) = Some nm"
  by (cases h) simp_all

lemma path_of_walk [simp]: "path_of (walk h nm cp) = Some cp"
  by (cases h) simp_all

lemma find_map_distinct:
  assumes "distinct (map fst es)" and "e \<in> set es"
    and "\<And>e'. e' \<in> set es \<Longrightarrow> name_of (f e') = Some (fst e')"
  shows "find (\<lambda>c. name_of c = Some (fst e)) (map f es) = Some (f e)"
  using assms
proof (induction es)
  case Nil
  then show ?case by simp
next
  case (Cons x xs)
  show ?case
  proof (cases "x = e")
    case True
    with Cons.prems(3) [of x] show ?thesis by simp
  next
    case False
    with Cons.prems have "e \<in> set xs" "fst x \<noteq> fst e" by force+
    with Cons show ?thesis by simp
  qed
qed

lemma segments_childpath:
  "valid_name cn \<Longrightarrow> segments (childpath cp cn) = segments cp @ [cn]"
  by (simp add: childpath_def segments_append segments_no_sep valid_name_def)

lemma childpath_normal:
  assumes "valid_name cn" and "cp \<noteq> []" and "hd cp = CHR ''/''"
  shows "childpath cp cn \<noteq> [] \<and> hd (childpath cp cn) = CHR ''/'' \<and>
         normalize_path (Some (childpath cp cn)) = childpath cp cn"
proof -
  have "last cn \<noteq> CHR ''/''"
    using assms(1) last_in_set [of cn] unfolding valid_name_def by metis
  then have "last (childpath cp cn) \<noteq> CHR ''/''"
    using assms(1) by (simp add: childpath_def valid_name_def)
  moreover have "childpath cp cn \<noteq> []" "hd (childpath cp cn) = CHR ''/''"
    using assms by (auto simp: childpath_def)
  ultimately show ?thesis by (simp add: normalize_fixed_iff)
qed

lemma walk_paths_normal:
  assumes "valid_handle h" and "cp \<noteq> []" and "hd cp = CHR ''/''"
    and "normalize_path (Some cp) = cp"
    and "n \<in> set (nodes_of (walk h nm cp))" and "path_of n = Some p"
  shows "normalize_path (Some p) = p"
  using assms
proof (induction h arbitrary: nm cp)
  case FileHandle
  then show ?case by auto
next
  case (DirectoryHandle es)
  show ?case
  proof (cases "n = walk (DirectoryHandle es) nm cp")
    case True
    with DirectoryHandle.prems show ?thesis by simp
  next
    case False
    with DirectoryHandle.prems(5) obtain cn ch
      where e: "(cn, ch) \<in> set es"
        and n: "n \<in> set (nodes_of (case ch of FileHandle \<Rightarrow> File cn (childpath cp cn)
                   | DirectoryHandle es' \<Rightarrow> walk ch cn (childpath cp cn)))"
      by auto
    from e DirectoryHandle.prems(1) have v: "valid_name cn" "valid_handle ch" by auto
    note cn = childpath_normal [OF v(1) DirectoryHandle.prems(2,3)]
    show ?thesis
    proof (cases ch)
      case FileHandle
      with n DirectoryHandle.prems(6) cn show ?thesis by auto
    next
      case (DirectoryHandle es')
      with n have "n \<in> set (nodes_of (walk ch cn (childpath cp cn)))" by simp
      with DirectoryHandle.IH [of "(cn, ch)" ch "childpath cp cn" cn] e v cn
        \<open>path_of n = Some p\<close>
      show ?thesis by simp
    qed
  qed
qed

lemma walk_descend:
  assumes "valid_handle h"
    and "n \<in> set (nodes_of (walk h nm cp))" and "path_of n = Some p"
  shows "\<exists>qs. segments p = segments cp @ qs \<and> descend (walk h nm cp) qs = Some n"
  using assms
proof (induction h arbitrary: nm cp)
  case FileHandle
  then have "n = walk FileHandle nm cp" by simp
  with FileHandle show ?case by (intro exI [of _ "[]"]) auto
next
  case (DirectoryHandle es)
  let ?f = "\<lambda>(childName, childHandle).
               (case childHandle of
                  FileHandle \<Rightarrow> File childName (childpath cp childName)
                | DirectoryHandle es \<Rightarrow> walk childHandle childName (childpath cp childName))"
  have names: "\<And>e'. e' \<in> set es \<Longrightarrow> name_of (?f e') = Some (fst e')"
    by (auto split: handle.splits)
  show ?case
  proof (cases "n = walk (DirectoryHandle es) nm cp")
    case True
    with DirectoryHandle.prems show ?thesis by (intro exI [of _ "[]"]) auto
  next
    case False
    with DirectoryHandle.prems(2) obtain cn ch
      where e: "(cn, ch) \<in> set es" and n: "n \<in> set (nodes_of (?f (cn, ch)))"
      by auto
    from e DirectoryHandle.prems(1) have v: "valid_name cn" "valid_handle ch"
      and d: "distinct (map fst es)" by auto
    have step: "descend (walk (DirectoryHandle es) nm cp) (cn # qs) = descend (?f (cn, ch)) qs" for qs
      using find_map_distinct [of es "(cn, ch)" ?f, OF d e names] by simp
    show ?thesis
    proof (cases ch)
      case FileHandle
      with n DirectoryHandle.prems(3) have "n = File cn (childpath cp cn)" "p = childpath cp cn"
        by auto
      then have "segments p = segments cp @ [cn] \<and> descend (?f (cn, ch)) [] = Some n"
        using v FileHandle by (simp add: segments_childpath)
      then show ?thesis using step [of "[]"] by (intro exI [of _ "[cn]"]) simp
    next
      case (DirectoryHandle es')
      with n have "n \<in> set (nodes_of (walk ch cn (childpath cp cn)))" by simp
      with DirectoryHandle.IH [of "(cn, ch)" ch cn "childpath cp cn"] e v
        \<open>path_of n = Some p\<close>
      obtain qs where qs: "segments p = segments (childpath cp cn) @ qs"
        "descend (walk ch cn (childpath cp cn)) qs = Some n" by auto
      then have "segments p = segments cp @ cn # qs \<and> descend (?f (cn, ch)) qs = Some n"
        using v DirectoryHandle by (simp add: segments_childpath)
      then show ?thesis using step [of qs] by (intro exI [of _ "cn # qs"]) simp
    qed
  qed
qed

lemma dirtree_root: "dirtree root ''/'' = Inr (walk root [] ''/'')"
  by (simp add: dirtree_def)

lemma snapshot_findNode:
  assumes "valid_handle root" and "dirtree root ''/'' = Inr t"
    and "n \<in> set (nodes_of t)" and "path_of n = Some p"
  shows "findNode t (Some p) = Some n \<and> normalize_path (Some p) = p"
proof -
  have t: "t = walk root [] ''/''" using assms(2) by (simp add: dirtree_root)
  from walk_descend [OF assms(1), of n "[]" "''/''" p] assms(3,4) t
  have "descend t (segments p) = Some n" by auto
  moreover have "normalize_path (Some p) = p"
    using walk_paths_normal [OF assms(1), of "''/''" n "[]" p] assms(3,4) t
    by (simp add: normalize_path_def)
  ultimately show ?thesis by simp
qed

lemma descend_missing:
  assumes "descend t pre = Some m"
    and "children_of m = None \<or> find (\<lambda>c. name_of c = Some seg) (kids m) = None"
  shows "descend t (pre @ seg # rest) = None"
  using assms by (auto simp: descend_append kids_def split: option.splits)

text \<open>
  Claim C6. In the snapshot that \<^verbatim>\<open>dirtree("/")\<close> builds over a file system with
  valid, distinct entry names, \<^verbatim>\<open>findNode\<close> on the path of any node returns a node
  whose path is the normalised path. On any tree and any path, \<^verbatim>\<open>findNode\<close> returns
  \<^verbatim>\<open>null\<close> when the walk reaches a node that has no children (a file) or no child
  named by the next segment. The function is total and pure: it neither raises nor
  reads anything but the tree.
\<close>

theorem findNode_on_snapshot:
  "(valid_handle root \<and> dirtree root ''/'' = Inr t \<and> n \<in> set (nodes_of t) \<and>
    path_of n = Some p \<longrightarrow>
      (\<exists>m. findNode t (Some p) = Some m \<and> path_of m = Some (normalize_path (Some p)))) \<and>
   (segments (normalize_path q) = pre @ seg # rest \<and> descend u pre = Some m' \<and>
    (children_of m' = None \<or> find (\<lambda>c. name_of c = Some seg) (kids m') = None) \<longrightarrow>
      findNode u q = None)"
proof (intro conjI impI)
  assume a: "valid_handle root \<and> dirtree root ''/'' = Inr t \<and> n \<in> set (nodes_of t) \<and>
    path_of n = Some p"
  then have "findNode t (Some p) = Some n \<and> normalize_path (Some p) = p"
    by (intro snapshot_findNode [of root]) simp_all
  with a show "\<exists>m. findNode t (Some p) = Some m \<and> path_of m = Some (normalize_path (Some p))"
    by simp
next
  assume "segments (normalize_path q) = pre @ seg # rest \<and> descend u pre = Some m' \<and>
    (children_of m' = None \<or> find (\<lambda>c. name_of c = Some seg) (kids m') = None)"
  then show "findNode u q = None"
    by (simp add: findNode_descend descend_missing)
qed

lemma chain_fs_valid: "valid_handle chain_fs"
  by (simp add: chain_fs_def valid_name_def)

lemma chain_fs_tree: "dirtree chain_fs ''/'' = Inr chain_tree"
  by (simp add: dirtree_def chain_fs_def chain_tree_def dir_a_def dir_b_def dir_c_def dir_d_def
      childpath_def)

theorem findNode_on_snapshot_witness:
  "valid_handle chain_fs \<and> dirtree chain_fs ''/'' = Inr chain_tree \<and>
   dir_b \<in> set (nodes_of chain_tree) \<and> path_of dir_b = Some ''/a/b'' \<and>
   map_option path_of (findNode chain_tree (Some ''/a/b'')) = Some (Some ''/a/b'') \<and>
   findNode chain_tree (Some ''/f/x'') = None"
proof -
  have n: "dir_b \<in> set (nodes_of chain_tree)" "path_of dir_b = Some ''/a/b''"
    by (simp_all add: chain_tree_def dir_a_def dir_b_def)
  have q: "segments (normalize_path (Some ''/f/x'')) = [''f''] @ ''x'' # []"
    by (simp add: segments_def normalize_path_def)
  have d: "descend chain_tree [''f''] = Some (File ''f'' ''/f'')"
    by (simp add: chain_tree_def dir_a_def)
  have nf: "normalize_path (Some ''/a/b'') = ''/a/b''"
    by (simp add: normalize_path_def)
  from findNode_on_snapshot [of chain_fs chain_tree dir_b "''/a/b''" "Some ''/f/x''" "[''f'']"
      "''x''" "[]" chain_tree "File ''f'' ''/f''"]
  have "(\<exists>m. findNode chain_tree (Some ''/a/b'') = Some m \<and> path_of m = Some ''/a/b'') \<and>
        findNode chain_tree (Some ''/f/x'') = None"
    using chain_fs_valid chain_fs_tree n q d nf by simp
  then show ?thesis using chain_fs_valid chain_fs_tree n by auto
qed

section \<open>Handlers that leave the state alone\<close>

text \<open>
  Claim C8. A double click on the row of a file dispatches \<^verbatim>\<open>open-file\<close> with the
  normalised path of the file and changes no field of the state, in whichever column
  the row is. For a file of a snapshot built by \<^verbatim>\<open>dirtree\<close> the normalised path is
  the path of the file itself.
\<close>

theorem file_double_click_opens:
  "handleDoubleClickItem c (File nm p) s =
     Done (s\<lparr>dispatched := dispatched s @ [OpenFile (normalize_path (Some p))]\<rparr>) \<and>
   (valid_handle root \<and> dirtree root ''/'' = Inr t \<and> File nm p \<in> set (nodes_of t) \<longrightarrow>
      normalize_path (Some p) = p)"
proof (intro conjI impI)
  show "handleDoubleClickItem c (File nm p) s =
     Done (s\<lparr>dispatched := dispatched s @ [OpenFile (normalize_path (Some p))]\<rparr>)"
    by (simp add: handleDoubleClickItem_def dispatchEvent_def)
next
  assume "valid_handle root \<and> dirtree root ''/'' = Inr t \<and> File nm p \<in> set (nodes_of t)"
  then show "normalize_path (Some p) = p"
    using snapshot_findNode [of root t "File nm p" p] by simp
qed

theorem file_double_click_witness:
  "valid_handle chain_fs \<and> dirtree chain_fs ''/'' = Inr chain_tree \<and>
   File ''f'' ''/f'' \<in> set (nodes_of chain_tree) \<and>
   handleDoubleClickItem Col1 (File ''f'' ''/f'') chain_loaded =
     Done (chain_loaded\<lparr>dispatched := [OpenFile ''/f'']\<rparr>)"
proof -
  have n: "File ''f'' ''/f'' \<in> set (nodes_of chain_tree)"
    by (simp add: chain_tree_def dir_a_def)
  have e: "dispatched chain_loaded = []"
    by (simp add: chain_loaded_def initial_def)
  show ?thesis
    using file_double_click_opens [of Col1 "''f''" "''/f''" chain_loaded chain_fs chain_tree]
      chain_fs_valid chain_fs_tree n e by simp
qed

lemma normalize_nonempty [simp]: "normalize_path p \<noteq> []"
  using normalize_hd [of p] by simp

lemma selectedPath_after [simp]:
  "selectedPath (pushHistory p s) = selectedPath s"
  "selectedPath (updateBreadcrumb q s) = selectedPath s"
  by (simp_all add: pushHistory_def updateBreadcrumb_def Let_def)

lemma and_then_selected:
  assumes "same_navigation s (state_of r)" and "selectedPath s \<noteq> Some []"
    and "\<And>s1. \<exists>s2 q. f s1 = Done s2 \<and> selectedPath s2 = Some (normalize_path q)"
  shows "selectedPath (state_of (and_then r f)) \<noteq> Some []"
proof (cases r)
  case (Done s1)
  with assms(3) [of s1] show ?thesis by auto
next
  case (TypeError s1)
  with assms(1,2) show ?thesis by (simp add: same_navigation_def)
qed

lemma selected_handleDoubleClickItem:
  assumes "selectedPath s \<noteq> Some []"
  shows "selectedPath (state_of (handleDoubleClickItem c item s)) \<noteq> Some []"
proof (cases "is_file item")
  case True
  then show ?thesis using assms
    by (simp add: handleDoubleClickItem_def Let_def dispatchEvent_def)
next
  case False
  show ?thesis
  proof (cases "findNode (fullTree s) (Some (normalize_path (path_of item)))")
    case None
    with False assms show ?thesis by (simp add: handleDoubleClickItem_def Let_def)
  next
    case (Some node)
    have "same_navigation s (state_of (case c of Col1 \<Rightarrow> slideRight (normalize_path (path_of item)) s
                 | Col2 \<Rightarrow> Done (renderColumn Col3 (kids node) s)
                 | Col3 \<Rightarrow> slideLeft (normalize_path (path_of item)) s))"
      by (cases c) (simp_all add: slideRight_navigation slideLeft_navigation)
    then show ?thesis using False Some assms
      unfolding handleDoubleClickItem_def Let_def
      by (simp del: findNode_Some) (rule and_then_selected, auto)
  qed
qed

lemma selected_navigateFromBreadcrumb:
  assumes "selectedPath s \<noteq> Some []"
  shows "selectedPath (state_of (navigateFromBreadcrumb p s)) \<noteq> Some []"
  unfolding navigateFromBreadcrumb_def Let_def
  by (rule and_then_selected [OF _ assms])
     (auto intro!: and_then_navigation renderChildren_navigation)

lemma selected_step:
  assumes "selectedPath s \<noteq> Some []" and "\<And>item. a = Click item \<Longrightarrow> path_of item \<noteq> Some []"
  shows "selectedPath (step s a) \<noteq> Some []"
proof (cases a)
  case (Load root)
  with assms(1) show ?thesis by (simp add: loadTree_def Let_def split: sum.splits)
next
  case (Click item)
  with assms(2) show ?thesis by (simp add: clickRow_def)
next
  case (DoubleClick c item)
  with assms(1) show ?thesis by (simp add: selected_handleDoubleClickItem)
next
  case (BreadcrumbDoubleClick p)
  with assms(1) show ?thesis by (simp add: selected_navigateFromBreadcrumb)
next
  case PressClose
  with assms(1) show ?thesis by (simp add: closeBtn_def dispatchEvent_def)
next
  case PressOpen
  with assms(1) show ?thesis by (simp add: openBtn_def dispatchEvent_def split: option.splits)
next
  case PressBack
  with assms(1) show ?thesis by (simp add: back_nav_def Let_def)
next
  case PressUp
  with assms(1) show ?thesis by (simp add: upBtn_def split: option.splits)
next
  case (SubmitPath v)
  with assms(1) show ?thesis by (simp add: pathInput_def Let_def)
qed

lemma selected_foldl:
  assumes "selectedPath s \<noteq> Some []"
    and "\<forall>item. Click item \<in> set acts \<longrightarrow> path_of item \<noteq> Some []"
  shows "selectedPath (foldl step s acts) \<noteq> Some []"
  using assms
proof (induction acts arbitrary: s)
  case Nil
  then show ?case by simp
next
  case (Cons a acts)
  from Cons.prems have "selectedPath (step s a) \<noteq> Some []"
    by (intro selected_step) auto
  with Cons show ?case by simp
qed

text \<open>
  Claim C9. With a selected path (a non-empty string: the handler tests it for
  truthiness) the \<^verbatim>\<open>Open\<close> button dispatches \<^verbatim>\<open>opfs-file\<close> with that path as
  \<^verbatim>\<open>filePath\<close> and changes no field of the state; with no selected path it does
  nothing. The selected path is never the empty string in a state reached from the
  initial one by user actions, as long as no clicked row carries the empty path (no row
  of a snapshot does).
\<close>

theorem open_button:
  "(selectedPath s = Some p \<and> p \<noteq> [] \<longrightarrow>
      openBtn s = s\<lparr>dispatched := dispatched s @ [OpfsFile p]\<rparr>) \<and>
   (selectedPath s = None \<longrightarrow> openBtn s = s) \<and>
   ((\<forall>item. Click item \<in> set acts \<longrightarrow> path_of item \<noteq> Some []) \<longrightarrow>
      selectedPath (run acts) \<noteq> Some [])"
proof -
  have "selectedPath initial \<noteq> Some []" by (simp add: initial_def)
  then show ?thesis
    by (auto simp: openBtn_def dispatchEvent_def run_def dest: selected_foldl)
qed

theorem open_button_witness:
  "selectedPath (clickRow dir_a chain_loaded) = Some ''/a'' \<and>
   openBtn (clickRow dir_a chain_loaded) =
     (clickRow dir_a chain_loaded)\<lparr>dispatched := [OpfsFile ''/a'']\<rparr> \<and>
   selectedPath chain_loaded = None \<and> openBtn chain_loaded = chain_loaded \<and>
   selectedPath (run [Load chain_fs, Click dir_a]) \<noteq> Some []"
proof -
  have a: "selectedPath (clickRow dir_a chain_loaded) = Some ''/a''"
    "dispatched (clickRow dir_a chain_loaded) = []"
    by (simp_all add: clickRow_def dir_a_def chain_loaded_def initial_def)
  have b: "selectedPath chain_loaded = None"
    by (simp add: chain_loaded_def initial_def)
  have c: "\<forall>item. Click item \<in> set [Load chain_fs, Click dir_a] \<longrightarrow> path_of item \<noteq> Some []"
    by (simp add: dir_a_def)
  show ?thesis
    using open_button [of "clickRow dir_a chain_loaded" "''/a''" "[Load chain_fs, Click dir_a]"]
      open_button [of chain_loaded "''/a''" "[]"] a b c by simp
qed

text \<open>
  Claim C10. When no path is selected, or the selected path normalises to the root,
  the \<^verbatim>\<open>Up\<close> button changes nothing: \<^verbatim>\<open>parentOf\<close> gives \<^verbatim>\<open>null\<close> and
  \<^verbatim>\<open>jumpToPath\<close> is not called, so no column, selection or history entry is written.
\<close>

theorem up_at_root_noop:
  assumes "selectedPath s = None \<or> normalize_path (selectedPath s) = ''/''"
  shows "upBtn s = s"
proof -
  have "normalize_path (Some (or_root (selectedPath s))) = ''/''"
    using assms by (auto simp: or_root_def normalize_path_def split: option.splits)
  then show ?thesis by (simp add: upBtn_def parentOf_def)
qed

theorem up_at_root_witness:
  "selectedPath chain_loaded = None \<and> upBtn chain_loaded = chain_loaded \<and>
   normalize_path (selectedPath (jumpToPath (Some ''/'') True chain_loaded)) = ''/'' \<and>
   upBtn (jumpToPath (Some ''/'') True chain_loaded) = jumpToPath (Some ''/'') True chain_loaded"
proof -
  have a: "selectedPath chain_loaded = None"
    by (simp add: chain_loaded_def initial_def)
  have b: "normalize_path (selectedPath (jumpToPath (Some ''/'') True chain_loaded)) = ''/''"
    by (simp add: normalize_path_def)
  show ?thesis
    using up_at_root_noop [of chain_loaded]
      up_at_root_noop [of "jumpToPath (Some ''/'') True chain_loaded"] a b by simp
qed

section \<open>The three columns\<close>

subsection \<open>General facts\<close>

lemma segments_js_join: "\<forall>x \<in> set xs. valid_name x \<Longrightarrow> segments (js_join xs) = xs"
  using segments_join [of xs] by simp

lemma segments_take_valid: "\<forall>x \<in> set (take i (segments s)). valid_name x"
  using segments_valid [of _ s] by (auto simp: valid_name_def dest: in_set_takeD)

lemma segments_join_take [simp]:
  "segments (js_join (take i (segments s))) = take i (segments s)"
  by (simp add: segments_js_join segments_take_valid)

lemma segments_join_segments [simp]: "segments (js_join (segments s)) = segments s"
  using segments_join_take [of "length (segments s)" s] by simp

lemma columns_after [simp]:
  "col1 (pushHistory p s) = col1 s" "col2 (pushHistory p s) = col2 s" "col3 (pushHistory p s) = col3 s"
  "col1 (updateBreadcrumb q s) = col1 s" "col2 (updateBreadcrumb q s) = col2 s"
  "col3 (updateBreadcrumb q s) = col3 s"
  by (simp_all add: pushHistory_def updateBreadcrumb_def Let_def)

lemma jumpToPath_shallow:
  assumes "length (segments p) \<le> 3"
  shows "col1 (jumpToPath (Some p) b s) = kids (fullTree s)"
    and "col2 (jumpToPath (Some p) b s) =
           (if 2 \<le> length (segments p)
            then kids_opt (descend (fullTree s) (take 2 (segments p))) else [])"
    and "col3 (jumpToPath (Some p) b s) =
           (if 3 \<le> length (segments p)
            then kids_opt (descend (fullTree s) (take 3 (segments p))) else [])"
  using assms
  by (simp_all add: jumpToPath_def Let_def kids_opt_def segments_js_join segments_take_valid)

lemma slideLeft_Done:
  assumes "findNode (fullTree s) (Some (normalize_path (Some p))) = Some node"
  shows "\<exists>pn gn.
           findNode (fullTree s) (Some (or_root (parentOf (Some (normalize_path (Some p)))))) = Some pn \<and>
           findNode (fullTree s)
             (Some (or_root (parentOf (Some (or_root (parentOf (Some (normalize_path (Some p))))))))) = Some gn \<and>
           slideLeft p s = Done (s\<lparr>col1 := kids gn, col2 := kids pn, col3 := kids node\<rparr>)"
proof -
  from findNode_parent [OF assms] obtain pn
    where pn: "findNode (fullTree s) (Some (or_root (parentOf (Some (normalize_path (Some p)))))) = Some pn"
    by blast
  from findNode_parent [OF pn] obtain gn
    where gn: "findNode (fullTree s)
             (Some (or_root (parentOf (Some (or_root (parentOf (Some (normalize_path (Some p))))))))) = Some gn"
    by blast
  have "slideLeft p s = Done (s\<lparr>col1 := kids gn, col2 := kids pn, col3 := kids node\<rparr>)"
    using assms pn gn unfolding slideLeft_def Let_def renderChildren_def
    by (simp del: findNode_Some)
  with pn gn show ?thesis by blast
qed

lemma slideRight_Done:
  assumes "findNode (fullTree s) (Some (normalize_path (Some p))) = Some node"
  shows "\<exists>pn gn.
           findNode (fullTree s) (Some (or_root (parentOf (Some (normalize_path (Some p)))))) = Some pn \<and>
           findNode (fullTree s)
             (Some (or_root (parentOf (Some (or_root (parentOf (Some (normalize_path (Some p))))))))) = Some gn \<and>
           slideRight p s =
             Done (if or_root (parentOf (Some (normalize_path (Some p)))) = ''/''
                   then s\<lparr>col1 := kids pn, col2 := kids node, col3 := []\<rparr>
                   else s\<lparr>col1 := kids gn, col2 := kids pn, col3 := kids node\<rparr>)"
proof -
  from findNode_parent [OF assms] obtain pn
    where pn: "findNode (fullTree s) (Some (or_root (parentOf (Some (normalize_path (Some p)))))) = Some pn"
    by blast
  from findNode_parent [OF pn] obtain gn
    where gn: "findNode (fullTree s)
             (Some (or_root (parentOf (Some (or_root (parentOf (Some (normalize_path (Some p))))))))) = Some gn"
    by blast
  have "slideRight p s =
             Done (if or_root (parentOf (Some (normalize_path (Some p)))) = ''/''
                   then s\<lparr>col1 := kids pn, col2 := kids node, col3 := []\<rparr>
                   else s\<lparr>col1 := kids gn, col2 := kids pn, col3 := kids node\<rparr>)"
  proof (cases "or_root (parentOf (Some (normalize_path (Some p)))) = ''/''")
    case True
    with pn have "findNode (fullTree s) (Some ''/'') = Some pn" by simp
    with True assms show ?thesis
      unfolding slideRight_def Let_def renderChildren_def kids_opt_def
      by (simp del: findNode_Some)
  next
    case False
    with assms pn gn show ?thesis
      unfolding slideRight_def Let_def renderChildren_def kids_opt_def
      by (simp del: findNode_Some)
  qed
  with pn gn show ?thesis by blast
qed


lemma handleDoubleClickItem_directory:
  assumes "normalize_path (Some p) = p" and "findNode (fullTree s) (Some p) = Some node"
  shows "handleDoubleClickItem c (Directory nm p cs) s =
     and_then (case c of Col1 \<Rightarrow> slideRight p s
                | Col2 \<Rightarrow> Done (renderColumn Col3 (kids node) s)
                | Col3 \<Rightarrow> slideLeft p s)
       (\<lambda>s1. Done (pushHistory p (updateBreadcrumb (Some p) (s1\<lparr>selectedPath := Some p\<rparr>))))"
  using assms unfolding handleDoubleClickItem_def Let_def
  by (cases c) (simp_all del: findNode_Some)

subsection \<open>Evaluation on the example file system\<close>

lemmas chain_defs = chain_fs_def chain_tree_def dir_a_def dir_b_def dir_c_def dir_d_def
  chain_loaded_def initial_def

lemmas handler_defs = handleDoubleClickItem_def slideLeft_def slideRight_def renderChildren_def
  parentOf_def or_root_def lastIndexOf_def substring0_def normalize_path_def segments_def
  kids_def kids_opt_def updateBreadcrumb_def makeBreadcrumbSegment_def pushHistory_def slice0_def
  Let_def jumpToPath_def slice_last3_def findNode_def

lemma load_chain: "loadTree chain_fs initial = chain_loaded"
  by (simp add: loadTree_def dirtree_def chain_defs childpath_def updateBreadcrumb_def Let_def
      segments_def makeBreadcrumbSegment_def normalize_path_def)

lemma chain_at_b_fields:
  "fullTree chain_at_b = chain_tree" "col1 chain_at_b = [dir_a, File ''f'' ''/f'']"
  "col2 chain_at_b = [dir_b]" "col3 chain_at_b = [dir_c]"
  unfolding chain_at_b_def run_def
  by (simp_all add: load_chain) (simp_all add: chain_defs handler_defs del: findNode_Some)

lemma chain_at_c_fields:
  "fullTree chain_at_c = chain_tree" "col1 chain_at_c = [dir_b]"
  "col2 chain_at_c = [dir_c]" "col3 chain_at_c = [dir_d]"
  unfolding chain_at_c_def chain_at_b_def run_def
  by (simp_all add: load_chain) (simp_all add: chain_defs handler_defs del: findNode_Some)

lemma chain_parents:
  "or_root (parentOf (Some ''/a/b/c'')) = ''/a/b''"
  "or_root (parentOf (Some ''/a/b'')) = ''/a''"
  "or_root (parentOf (Some ''/a'')) = ''/''"
  by (simp_all add: parentOf_def or_root_def lastIndexOf_def substring0_def normalize_path_def)

lemma chain_lookup:
  "descend chain_tree (segments ''a'') = Some dir_a"
  "descend chain_tree (segments ''a/b'') = Some dir_b"
  "descend chain_tree (segments ''a/b/c'') = Some dir_c"
  by (simp_all add: chain_defs segments_def)

lemma chain_kids:
  "kids chain_tree = [dir_a, File ''f'' ''/f'']" "kids dir_a = [dir_b]" "kids dir_b = [dir_c]"
  "kids dir_c = [dir_d]"
  by (simp_all add: chain_defs kids_def)

subsection \<open>Jumping to a path\<close>

text \<open>
  Claim C1, as stated, fails for a path of one segment: \<^verbatim>\<open>jumpToPath\<close> fills column 1
  with the children of the root, not with the children of the target.
\<close>

theorem jump_counterexample:
  "findNode (fullTree chain_loaded) (Some ''/a'') = Some dir_a \<and>
   normalize_path (Some ''/a'') = ''/a'' \<and> length (segments ''/a'') = 1 \<and>
   kids (fullTree chain_loaded) \<noteq> [] \<and> kids dir_a \<noteq> [] \<and>
   col1 (jumpToPath (Some ''/a'') True chain_loaded) \<noteq> kids dir_a"
  by (simp add: chain_defs handler_defs del: findNode_Some)

text \<open>
  For a path of more than three segments, the second and third column are looked up
  from the root under the last three segments alone, so on the example they stay empty.
\<close>

lemma jump_deep_example:
  "findNode (fullTree chain_loaded) (Some ''/a/b/c/d'') = Some dir_d \<and>
   col1 (jumpToPath (Some ''/a/b/c/d'') True chain_loaded) = [dir_b] \<and>
   col2 (jumpToPath (Some ''/a/b/c/d'') True chain_loaded) = [] \<and>
   col3 (jumpToPath (Some ''/a/b/c/d'') True chain_loaded) = []"
  by (simp add: chain_defs handler_defs del: findNode_Some)

text \<open>
  Claim C1, amended. Let the target \<open>p\<close> resolve to the node \<open>n\<close> and have \<open>k \<le> 3\<close>
  segments. Then \<^verbatim>\<open>jumpToPath\<close> shows the children of the root in column 1; for
  \<open>k \<le> 1\<close> columns 2 and 3 are empty; for \<open>k = 2\<close> column 2 shows the children of the
  target and column 3 is empty; for \<open>k = 3\<close> column 2 shows the children of the node at
  the first two segments and column 3 the children of the target. When the root and
  every node along the path have children, exactly \<open>max 1 k\<close> columns are non-empty.
  Nothing is stated for \<open>k > 3\<close>.
\<close>

theorem jump_shallow_window:
  assumes "findNode (fullTree s) (Some p) = Some n"
    and "k = length (segments p)" and "k \<le> 3"
  shows "col1 (jumpToPath (Some p) b s) = kids (fullTree s) \<and>
     (k \<le> 1 \<longrightarrow> col2 (jumpToPath (Some p) b s) = [] \<and> col3 (jumpToPath (Some p) b s) = []) \<and>
     (k = 2 \<longrightarrow> col2 (jumpToPath (Some p) b s) = kids n \<and> col3 (jumpToPath (Some p) b s) = []) \<and>
     (k = 3 \<longrightarrow> col2 (jumpToPath (Some p) b s) = kids_opt (descend (fullTree s) (take 2 (segments p)))
               \<and> col3 (jumpToPath (Some p) b s) = kids n) \<and>
     ((\<forall>i \<le> k. kids_opt (descend (fullTree s) (take i (segments p))) \<noteq> []) \<longrightarrow>
        nonempty_columns (jumpToPath (Some p) b s) = max 1 k)"
proof -
  have len: "length (segments p) \<le> 3" using assms by simp
  note cols = jumpToPath_shallow [OF len, of b s]
  have n: "descend (fullTree s) (segments p) = Some n" using assms(1) by simp
  have c1: "col1 (jumpToPath (Some p) b s) = kids (fullTree s)" by (rule cols)
  have c2: "k \<le> 1 \<Longrightarrow> col2 (jumpToPath (Some p) b s) = [] \<and> col3 (jumpToPath (Some p) b s) = []"
    using cols assms(2) by simp
  have c3: "k = 2 \<Longrightarrow> col2 (jumpToPath (Some p) b s) = kids n \<and> col3 (jumpToPath (Some p) b s) = []"
    using cols assms(2) n by (simp add: kids_opt_def)
  have c4: "k = 3 \<Longrightarrow> col2 (jumpToPath (Some p) b s) = kids_opt (descend (fullTree s) (take 2 (segments p)))
               \<and> col3 (jumpToPath (Some p) b s) = kids n"
    using cols assms(2) n by (simp add: kids_opt_def)
  have c5: "nonempty_columns (jumpToPath (Some p) b s) = max 1 k"
    if ne: "\<forall>i \<le> k. kids_opt (descend (fullTree s) (take i (segments p))) \<noteq> []"
  proof -
    from ne have r: "kids (fullTree s) \<noteq> []" by (auto simp: kids_opt_def dest: spec [of _ 0])
    from ne assms(2) n have t: "kids n \<noteq> []" by (auto simp: kids_opt_def dest: spec [of _ k])
    from ne have m: "2 \<le> k \<Longrightarrow> kids_opt (descend (fullTree s) (take 2 (segments p))) \<noteq> []"
      by simp
    from assms(3) consider "k \<le> 1" | "k = 2" | "k = 3" by linarith
    then show ?thesis
    proof cases
      case 1
      with c1 c2 r show ?thesis by (simp add: nonempty_columns_def)
    next
      case 2
      with c1 c3 r t show ?thesis by (simp add: nonempty_columns_def)
    next
      case 3
      with c1 c4 r t m show ?thesis by (simp add: nonempty_columns_def)
    qed
  qed
  from c1 c2 c3 c4 c5 show ?thesis by blast
qed

theorem jump_shallow_witness:
  "findNode (fullTree chain_loaded) (Some ''/a/b'') = Some dir_b \<and>
   length (segments ''/a/b'') = 2 \<and>
   col1 (jumpToPath (Some ''/a/b'') True chain_loaded) = [dir_a, File ''f'' ''/f''] \<and>
   col2 (jumpToPath (Some ''/a/b'') True chain_loaded) = [dir_c] \<and>
   col3 (jumpToPath (Some ''/a/b'') True chain_loaded) = [] \<and>
   nonempty_columns (jumpToPath (Some ''/a/b'') True chain_loaded) = 2"
proof -
  have f: "findNode (fullTree chain_loaded) (Some ''/a/b'') = Some dir_b"
    by (simp add: chain_defs segments_def del: findNode_Some add: findNode_def normalize_path_def)
  have k: "(2::nat) = length (segments ''/a/b'')" by (simp add: segments_def)
  have ne: "\<forall>i \<le> (2::nat). kids_opt (descend (fullTree chain_loaded) (take i (segments ''/a/b''))) \<noteq> []"
  proof (intro allI impI)
    fix i :: nat assume "i \<le> 2"
    then consider "i = 0" | "i = 1" | "i = 2" by linarith
    then show "kids_opt (descend (fullTree chain_loaded) (take i (segments ''/a/b''))) \<noteq> []"
      by cases (simp_all add: chain_defs segments_def kids_opt_def kids_def)
  qed
  have kd: "kids (fullTree chain_loaded) = [dir_a, File ''f'' ''/f'']" "kids dir_b = [dir_c]"
    by (simp_all add: chain_defs kids_def)
  show ?thesis
    using jump_shallow_window [OF f k, of True] ne f k kd by simp
qed

subsection \<open>Double click in column 3\<close>

text \<open>
  Claim C3, as stated, fails: the window of \<^verbatim>\<open>slideLeft\<close> is not the window of
  \<^verbatim>\<open>jumpToPath\<close>. On \<^verbatim>\<open>/a/b/c\<close>, shown in column 3, the first column becomes the
  children of \<^verbatim>\<open>/a\<close> under \<^verbatim>\<open>slideLeft\<close> and the children of the root under
  \<^verbatim>\<open>jumpToPath\<close>.
\<close>

theorem slide_left_counterexample:
  "dir_c \<in> set (col3 chain_at_b) \<and>
   findNode (fullTree chain_at_b) (Some ''/a/b/c'') = Some dir_c \<and>
   col1 (state_of (handleDoubleClickItem Col3 dir_c chain_at_b)) \<noteq>
   col1 (jumpToPath (Some ''/a/b/c'') True chain_at_b)"
  by (simp add: chain_at_b_fields del: findNode_Some)
     (simp add: chain_defs handler_defs chain_at_b_fields del: findNode_Some)

text \<open>
  Claim C3, amended. For a directory row whose normalised path \<open>p\<close> resolves in the
  snapshot, a double click in column 3 finds the parent and the grandparent too (the
  root stands in for a missing one), raises no error, and leaves column 1 with the
  children of the grandparent, column 2 with the children of the parent and column 3
  with the children of \<open>p\<close>. The equality with \<^verbatim>\<open>jumpToPath\<close> is dropped.
\<close>

theorem slide_left_columns:
  assumes "normalize_path (Some p) = p" and "findNode (fullTree s) (Some p) = Some node"
  shows "\<exists>pn gn s'.
           findNode (fullTree s) (Some (or_root (parentOf (Some p)))) = Some pn \<and>
           findNode (fullTree s) (Some (or_root (parentOf (Some (or_root (parentOf (Some p))))))) = Some gn \<and>
           handleDoubleClickItem Col3 (Directory nm p cs) s = Done s' \<and>
           col1 s' = kids gn \<and> col2 s' = kids pn \<and> col3 s' = kids node"
proof -
  from slideLeft_Done [of s p node] assms obtain pn gn where
    "findNode (fullTree s) (Some (or_root (parentOf (Some p)))) = Some pn"
    "findNode (fullTree s) (Some (or_root (parentOf (Some (or_root (parentOf (Some p))))))) = Some gn"
    "slideLeft p s = Done (s\<lparr>col1 := kids gn, col2 := kids pn, col3 := kids node\<rparr>)"
    by auto
  then show ?thesis
    unfolding handleDoubleClickItem_directory [OF assms]
    by (intro exI [of _ pn] exI [of _ gn]) simp
qed

theorem slide_left_witness:
  "normalize_path (Some ''/a/b/c'') = ''/a/b/c'' \<and>
   findNode (fullTree chain_at_b) (Some ''/a/b/c'') = Some dir_c \<and>
   col1 (state_of (handleDoubleClickItem Col3 dir_c chain_at_b)) = [dir_b] \<and>
   col2 (state_of (handleDoubleClickItem Col3 dir_c chain_at_b)) = [dir_c] \<and>
   col3 (state_of (handleDoubleClickItem Col3 dir_c chain_at_b)) = [dir_d]"
proof -
  have h1: "normalize_path (Some ''/a/b/c'') = ''/a/b/c''"
    by (simp add: normalize_path_def)
  have h2: "findNode (fullTree chain_at_b) (Some ''/a/b/c'') = Some dir_c"
    by (simp add: chain_at_b_fields chain_lookup)
  from slide_left_columns [OF h1 h2, of "''c''" "[dir_d]"] obtain pn gn s' where
    "findNode (fullTree chain_at_b) (Some (or_root (parentOf (Some ''/a/b/c'')))) = Some pn"
    "findNode (fullTree chain_at_b)
       (Some (or_root (parentOf (Some (or_root (parentOf (Some ''/a/b/c''))))))) = Some gn"
    "handleDoubleClickItem Col3 (Directory ''c'' ''/a/b/c'' [dir_d]) chain_at_b = Done s'"
    "col1 s' = kids gn" "col2 s' = kids pn" "col3 s' = kids dir_c"
    by blast
  then have "col1 (state_of (handleDoubleClickItem Col3 dir_c chain_at_b)) = kids dir_a \<and>
    col2 (state_of (handleDoubleClickItem Col3 dir_c chain_at_b)) = kids dir_b \<and>
    col3 (state_of (handleDoubleClickItem Col3 dir_c chain_at_b)) = kids dir_c"
    by (simp add: chain_parents chain_at_b_fields chain_lookup dir_c_def [symmetric])
  with h1 h2 show ?thesis by (simp add: chain_kids)
qed

subsection \<open>Double click in column 1\<close>

text \<open>
  Claim C2, as stated, fails when the parent is not the root: \<^verbatim>\<open>slideRight\<close> then puts
  the children of the parent in column 2 and the children of the clicked directory in
  column 3, which is not left empty.
\<close>

theorem slide_right_counterexample:
  "dir_b \<in> set (col1 chain_at_c) \<and>
   findNode (fullTree chain_at_c) (Some ''/a/b'') = Some dir_b \<and>
   parentOf (Some ''/a/b'') = Some ''/a'' \<and>
   col2 (state_of (handleDoubleClickItem Col1 dir_b chain_at_c)) \<noteq> kids dir_b \<and>
   col3 (state_of (handleDoubleClickItem Col1 dir_b chain_at_c)) \<noteq> []"
  by (simp add: chain_at_c_fields del: findNode_Some)
     (simp add: chain_defs handler_defs chain_at_c_fields del: findNode_Some)

text \<open>
  Claim C2, amended. For a directory row whose normalised path \<open>p\<close> resolves in the
  snapshot, a double click in column 1 raises no error and, when the parent of \<open>p\<close> is
  not the root, leaves column 1 with the children of \<open>parentOf(parentOf(p))\<close>, column 2
  with the children of \<open>parentOf(p)\<close> and column 3 with the children of \<open>p\<close>; when the
  parent is the root, column 1 holds the children of the root, column 2 the children of
  \<open>p\<close>, and column 3 is empty.
\<close>

theorem slide_right_columns:
  assumes "normalize_path (Some p) = p" and "findNode (fullTree s) (Some p) = Some node"
  shows "\<exists>pn gn s'.
           findNode (fullTree s) (Some (or_root (parentOf (Some p)))) = Some pn \<and>
           findNode (fullTree s) (Some (or_root (parentOf (Some (or_root (parentOf (Some p))))))) = Some gn \<and>
           handleDoubleClickItem Col1 (Directory nm p cs) s = Done s' \<and>
           (if or_root (parentOf (Some p)) = ''/''
            then col1 s' = kids (fullTree s) \<and> col2 s' = kids node \<and> col3 s' = []
            else col1 s' = kids gn \<and> col2 s' = kids pn \<and> col3 s' = kids node)"
proof -
  from slideRight_Done [of s p node] assms obtain pn gn where *:
    "findNode (fullTree s) (Some (or_root (parentOf (Some p)))) = Some pn"
    "findNode (fullTree s) (Some (or_root (parentOf (Some (or_root (parentOf (Some p))))))) = Some gn"
    "slideRight p s =
             Done (if or_root (parentOf (Some p)) = ''/''
                   then s\<lparr>col1 := kids pn, col2 := kids node, col3 := []\<rparr>
                   else s\<lparr>col1 := kids gn, col2 := kids pn, col3 := kids node\<rparr>)"
    by auto
  have "or_root (parentOf (Some p)) = ''/'' \<Longrightarrow> pn = fullTree s"
    using *(1) by simp
  with * show ?thesis
    unfolding handleDoubleClickItem_directory [OF assms]
    by (intro exI [of _ pn] exI [of _ gn]) auto
qed

theorem slide_right_witness:
  "normalize_path (Some ''/a/b'') = ''/a/b'' \<and>
   findNode (fullTree chain_at_c) (Some ''/a/b'') = Some dir_b \<and>
   or_root (parentOf (Some ''/a/b'')) \<noteq> ''/'' \<and>
   col1 (state_of (handleDoubleClickItem Col1 dir_b chain_at_c)) = [dir_a, File ''f'' ''/f''] \<and>
   col2 (state_of (handleDoubleClickItem Col1 dir_b chain_at_c)) = [dir_b] \<and>
   col3 (state_of (handleDoubleClickItem Col1 dir_b chain_at_c)) = [dir_c] \<and>
   normalize_path (Some ''/a'') = ''/a'' \<and>
   findNode (fullTree chain_loaded) (Some ''/a'') = Some dir_a \<and>
   or_root (parentOf (Some ''/a'')) = ''/'' \<and>
   col1 (state_of (handleDoubleClickItem Col1 dir_a chain_loaded)) = [dir_a, File ''f'' ''/f''] \<and>
   col2 (state_of (handleDoubleClickItem Col1 dir_a chain_loaded)) = [dir_b] \<and>
   col3 (state_of (handleDoubleClickItem Col1 dir_a chain_loaded)) = []"
proof -
  have h1: "normalize_path (Some ''/a/b'') = ''/a/b''" and g1: "normalize_path (Some ''/a'') = ''/a''"
    by (simp_all add: normalize_path_def)
  have h2: "findNode (fullTree chain_at_c) (Some ''/a/b'') = Some dir_b"
    by (simp add: chain_at_c_fields chain_lookup)
  have g2: "findNode (fullTree chain_loaded) (Some ''/a'') = Some dir_a"
    by (simp add: chain_loaded_def chain_lookup)
  from slide_right_columns [OF h1 h2, of "''b''" "[dir_c]"] obtain pn gn s' where
    "findNode (fullTree chain_at_c) (Some (or_root (parentOf (Some ''/a/b'')))) = Some pn"
    "findNode (fullTree chain_at_c)
       (Some (or_root (parentOf (Some (or_root (parentOf (Some ''/a/b''))))))) = Some gn"
    "handleDoubleClickItem Col1 (Directory ''b'' ''/a/b'' [dir_c]) chain_at_c = Done s'"
    "if or_root (parentOf (Some ''/a/b'')) = ''/''
     then col1 s' = kids (fullTree chain_at_c) \<and> col2 s' = kids dir_b \<and> col3 s' = []
     else col1 s' = kids gn \<and> col2 s' = kids pn \<and> col3 s' = kids dir_b"
    by blast
  then have a: "col1 (state_of (handleDoubleClickItem Col1 dir_b chain_at_c)) = kids chain_tree \<and>
    col2 (state_of (handleDoubleClickItem Col1 dir_b chain_at_c)) = kids dir_a \<and>
    col3 (state_of (handleDoubleClickItem Col1 dir_b chain_at_c)) = kids dir_b"
    by (simp add: chain_parents chain_at_c_fields chain_lookup dir_b_def [symmetric])
  from slide_right_columns [OF g1 g2, of "''a''" "[dir_b]"] obtain pn' gn' t' where
    "handleDoubleClickItem Col1 (Directory ''a'' ''/a'' [dir_b]) chain_loaded = Done t'"
    "if or_root (parentOf (Some ''/a'')) = ''/''
     then col1 t' = kids (fullTree chain_loaded) \<and> col2 t' = kids dir_a \<and> col3 t' = []
     else col1 t' = kids gn' \<and> col2 t' = kids pn' \<and> col3 t' = kids dir_a"
    by blast
  then have b: "col1 (state_of (handleDoubleClickItem Col1 dir_a chain_loaded)) = kids chain_tree \<and>
    col2 (state_of (handleDoubleClickItem Col1 dir_a chain_loaded)) = kids dir_a \<and>
    col3 (state_of (handleDoubleClickItem Col1 dir_a chain_loaded)) = []"
    by (simp add: chain_parents chain_loaded_def dir_a_def [symmetric])
  from a b h1 h2 g1 g2 show ?thesis by (simp add: chain_kids chain_parents)
qed

end
